theory Spec2Isabelle
  imports Main
begin

section \<open>File chunking and merging (program.cpp)\<close>

text \<open>
  The program splits a file into numbered part files and joins the parts again. It has a
  binary pipeline (\<open>chunkFile\<close>, \<open>joinFile\<close>) and a line-oriented pipeline
  (\<open>chunkCSV\<close>, \<open>joinCSV\<close>). All four functions act on the file system only, so the
  model threads a file system through them and returns the message the function prints.
\<close>

subsection \<open>The file system and the messages\<close>

text \<open>
  A file is a byte string, a path is a string. \<open>files\<close> holds the regular files that
  exist (an \<open>ifstream\<close> opens exactly these), \<open>writable\<close> says for which paths an
  \<open>ofstream\<close> can be opened. Writing never changes \<open>writable\<close>.

  An input stream reads the content its file had when it was opened; the model is that of
  the program only while no part file and no output file has the path of a file that is
  open for reading. Streams pass bytes through unchanged (no newline translation, as on
  POSIX systems). The counters are natural numbers: the program's \<open>int\<close> and
  \<open>unsigned int\<close> counters agree with them below \<open>2 ^ 31\<close>. The chunk size is an
  \<open>unsigned long\<close> of 64 bits; \<open>chunkFile\<close> allocates a buffer of that many bytes, and
  the allocation is modelled where it is certain to fail (see \<open>chunkFile\<close>).
\<close>

record fsys =
  files :: "string \<rightharpoonup> string"
  writable :: "string \<Rightarrow> bool"

definition write_file :: "fsys \<Rightarrow> string \<Rightarrow> string \<Rightarrow> fsys" where
  "write_file fs name bytes = fs\<lparr>files := (files fs)(name \<mapsto> bytes)\<rparr>"

text \<open>Writing through a stream that is open on \<open>name\<close> appends to the file.\<close>

definition append_file :: "fsys \<Rightarrow> string \<Rightarrow> string \<Rightarrow> fsys" where
  "append_file fs name bytes =
     (case files fs name of
        None \<Rightarrow> fs
      | Some old \<Rightarrow> write_file fs name (old @ bytes))"

text \<open>One constructor for each message the four functions print.\<close>

datatype report =
    BinaryChunkingComplete nat  \<comment> \<open>"Binary chunking complete! n files created."\<close>
  | ErrorOpeningFile            \<comment> \<open>"Error opening file!"\<close>
  | BadAlloc                    \<comment> \<open>nothing printed: \<open>std::bad_alloc\<close> leaves \<open>chunkFile\<close>\<close>
  | JoinOutputError             \<comment> \<open>"Error: Unable to open output file for writing."\<close>
  | BinaryAssemblyComplete      \<comment> \<open>"Binary file assembly complete!"\<close>
  | CSVChunkingComplete nat     \<comment> \<open>"CSV chunking complete! n files created."\<close>
  | CSVChunkWriteError          \<comment> \<open>"Error: Unable to open chunk file for writing."\<close>
  | CSVOpenError                \<comment> \<open>"Error: Unable to open CSV file!"\<close>
  | CSVJoinOutputError          \<comment> \<open>"Error: Unable to open output CSV file!"\<close>
  | CSVAssemblyComplete         \<comment> \<open>"CSV file assembly complete!"\<close>

subsection \<open>Part names\<close>

definition digit_char :: "nat \<Rightarrow> char" where
  "digit_char d = ''0123456789'' ! d"

text \<open>\<open>std::to_string\<close> on a non-negative counter: its decimal digits.\<close>

function to_string :: "nat \<Rightarrow> string" where
  "to_string n =
     (if n < 10 then [digit_char n] else to_string (n div 10) @ [digit_char (n mod 10)])"
  by pat_completeness auto
termination
  by (relation "measure (\<lambda>n. n)") auto

declare to_string.simps [simp del]

text \<open>The name of part \<open>counter\<close>: \<open>chunkName + to_string(counter) + extension\<close>.\<close>

definition part_name :: "string \<Rightarrow> nat \<Rightarrow> string \<Rightarrow> string" where
  "part_name chunkName counter extension = chunkName @ to_string counter @ extension"

text \<open>\<open>find_last_of\<close>: the last position of the character, if it occurs.\<close>

fun find_last_of :: "string \<Rightarrow> char \<Rightarrow> nat option" where
  "find_last_of [] c = None"
| "find_last_of (x # xs) c =
     (case find_last_of xs c of
        Some p \<Rightarrow> Some (Suc p)
      | None \<Rightarrow> (if x = c then Some 0 else None))"

definition originalExtension :: "string \<Rightarrow> string" where
  "originalExtension fullFilePath =
     (case find_last_of fullFilePath (CHR ''.'') of
        None \<Rightarrow> []
      | Some dotPos \<Rightarrow> drop dotPos fullFilePath)"

subsection \<open>The binary chunker\<close>

text \<open>
  The loop \<open>while (!fileStream.eof())\<close>. \<open>rest\<close> is the unread input and \<open>eof\<close> the
  stream's eofbit. \<open>read(buffer, chunkSize)\<close> takes up to \<open>chunkSize\<close> bytes and sets the
  eofbit only when fewer than \<open>chunkSize\<close> bytes were left. When the part cannot be opened
  the body does nothing, and the loop tests the same condition again.
\<close>

partial_function (option) chunkFile_loop ::
  "fsys \<Rightarrow> string \<Rightarrow> string \<Rightarrow> nat \<Rightarrow> string \<Rightarrow> bool \<Rightarrow> nat \<Rightarrow> (fsys \<times> nat) option" where
  "chunkFile_loop fs chunkName extension chunkSize rest eof counter =
     (if eof then Some (fs, counter)
      else if writable fs (part_name chunkName counter extension) then
        chunkFile_loop
          (write_file fs (part_name chunkName counter extension) (take chunkSize rest))
          chunkName extension chunkSize
          (drop chunkSize rest) (length rest < chunkSize) (counter + 1)
      else chunkFile_loop fs chunkName extension chunkSize rest eof counter)"

text \<open>
  Once the source is open, \<open>char *buffer = new char[chunkSize]\<close> comes before the loop.
  A request of \<open>2 ^ 63\<close> bytes or more is beyond what an array allocation accepts: it
  throws \<open>std::bad_alloc\<close>, which nothing catches, so \<open>chunkFile\<close> is left before any
  part is written. Memory is taken to suffice for smaller buffers.
\<close>

definition chunkFile :: "fsys \<Rightarrow> string \<Rightarrow> string \<Rightarrow> nat \<Rightarrow> (report \<times> fsys) option" where
  "chunkFile fs fullFilePath chunkName chunkSize =
     (case files fs fullFilePath of
        None \<Rightarrow> Some (ErrorOpeningFile, fs)
      | Some src \<Rightarrow>
          if 2 ^ 63 \<le> chunkSize then Some (BadAlloc, fs)
          else
            (case chunkFile_loop fs chunkName (originalExtension fullFilePath) chunkSize src False 1 of
               None \<Rightarrow> None
             | Some (fs', counter) \<Rightarrow> Some (BinaryChunkingComplete (counter - 1), fs')))"

subsection \<open>The binary joiner\<close>

text \<open>
  The loop \<open>while (fileFound)\<close>: it probes part \<open>counter\<close>, appends the whole part to the
  output and stops at the first part that does not open.
\<close>

partial_function (option) joinFile_loop ::
  "fsys \<Rightarrow> string \<Rightarrow> string \<Rightarrow> nat \<Rightarrow> string \<Rightarrow> string option" where
  "joinFile_loop fs chunkName extension counter out =
     (case files fs (part_name chunkName counter extension) of
        Some bytes \<Rightarrow> joinFile_loop fs chunkName extension (counter + 1) (out @ bytes)
      | None \<Rightarrow> Some out)"

definition joinFile :: "fsys \<Rightarrow> string \<Rightarrow> string \<Rightarrow> string \<Rightarrow> (report \<times> fsys) option" where
  "joinFile fs chunkName fileOutput extension =
     (if \<not> writable fs fileOutput then Some (JoinOutputError, fs)
      else
        (case joinFile_loop (write_file fs fileOutput []) chunkName extension 1 [] of
           None \<Rightarrow> None
         | Some out \<Rightarrow> Some (BinaryAssemblyComplete, write_file fs fileOutput out)))"

subsection \<open>Reading lines\<close>

abbreviation LF :: char where
  "LF \<equiv> CHR 0x0A"

abbreviation CR :: char where
  "CR \<equiv> CHR 0x0D"

text \<open>
  \<open>getline(stream, line)\<close> on the unread input: it fails when nothing is left; otherwise
  the line is what precedes the first newline (or everything, when there is none), and the
  newline is consumed. Nothing else is removed from the line: a carriage return before the
  newline stays in it.
\<close>

definition getline :: "string \<Rightarrow> (string \<times> string) option" where
  "getline input =
     (if input = [] then None
      else Some (takeWhile (\<lambda>c. c \<noteq> LF) input, drop 1 (dropWhile (\<lambda>c. c \<noteq> LF) input)))"

text \<open>The lines that \<open>while (getline(stream, line))\<close> goes through.\<close>

function read_lines :: "string \<Rightarrow> string list" where
  "read_lines input =
     (case getline input of
        None \<Rightarrow> []
      | Some (line, rest) \<Rightarrow> line # read_lines rest)"
  by pat_completeness auto
termination
proof (relation "measure length")
  show "wf (measure length)" by simp
next
  fix input :: string and x2 line rest
  assume "getline input = Some x2" and "(line, rest) = x2"
  then have "input \<noteq> []" and "rest = drop 1 (dropWhile (\<lambda>c. c \<noteq> LF) input)"
    by (auto simp: getline_def split: if_splits)
  moreover have "length (dropWhile (\<lambda>c. c \<noteq> LF) input) \<le> length input"
    by (rule length_dropWhile_le)
  ultimately show "(rest, input) \<in> measure length"
    by (cases input) auto
qed

declare read_lines.simps [simp del]

subsection \<open>The line-oriented chunker\<close>

text \<open>
  The loop \<open>while (getline(csvInput, line))\<close> over the data lines. \<open>output\<close> is the part
  the output stream is open on, if any. A new part is opened under the test
  \<open>currentSize == 0 || currentSize + line.size() > chunkSize\<close>; when it cannot be
  opened the function prints the error and returns.
\<close>

fun chunkCSV_loop ::
  "fsys \<Rightarrow> string \<Rightarrow> nat \<Rightarrow> string \<Rightarrow> string list \<Rightarrow> string option \<Rightarrow> nat \<Rightarrow> nat \<Rightarrow> report \<times> fsys" where
  "chunkCSV_loop fs chunkPrefix chunkSize headerLine [] output currentSize counter =
     (CSVChunkingComplete (counter - 1), fs)"
| "chunkCSV_loop fs chunkPrefix chunkSize headerLine (line # lines) output currentSize counter =
     (if currentSize = 0 \<or> currentSize + length line > chunkSize then
        (let chunkName = part_name chunkPrefix counter ''.csv'' in
         if \<not> writable fs chunkName then (CSVChunkWriteError, fs)
         else
           chunkCSV_loop
             (append_file (append_file (write_file fs chunkName []) chunkName (headerLine @ [LF]))
                chunkName (line @ [LF]))
             chunkPrefix chunkSize headerLine lines (Some chunkName) (length line) (counter + 1))
      else
        chunkCSV_loop
          (case output of None \<Rightarrow> fs | Some name \<Rightarrow> append_file fs name (line @ [LF]))
          chunkPrefix chunkSize headerLine lines output (currentSize + length line) counter)"

definition chunkCSV :: "fsys \<Rightarrow> string \<Rightarrow> string \<Rightarrow> nat \<Rightarrow> report \<times> fsys" where
  "chunkCSV fs csvPath chunkPrefix chunkSize =
     (case files fs csvPath of
        None \<Rightarrow> (CSVOpenError, fs)
      | Some src \<Rightarrow>
          (case getline src of
             None \<Rightarrow> (CSVChunkingComplete 0, fs)
           | Some (headerLine, rest) \<Rightarrow>
               chunkCSV_loop fs chunkPrefix chunkSize headerLine (read_lines rest) None 0 1))"

subsection \<open>The line-oriented joiner\<close>

text \<open>The inner loop \<open>while (getline(chunkInput, line)) output << line << "\n"\<close>.\<close>

fun copy_lines :: "string list \<Rightarrow> string \<Rightarrow> string" where
  "copy_lines [] out = out"
| "copy_lines (line # lines) out = copy_lines lines (out @ line @ [LF])"

text \<open>
  The loop \<open>while (true)\<close>, left at the first part that does not open. The first line of
  a part is written only while \<open>isFirstChunk\<close> holds, and the flag is cleared only when
  that first line could be read.
\<close>

partial_function (option) joinCSV_loop ::
  "fsys \<Rightarrow> string \<Rightarrow> nat \<Rightarrow> bool \<Rightarrow> string \<Rightarrow> string option" where
  "joinCSV_loop fs chunkPrefix counter isFirstChunk out =
     (case files fs (part_name chunkPrefix counter ''.csv'') of
        None \<Rightarrow> Some out
      | Some bytes \<Rightarrow>
          (case getline bytes of
             None \<Rightarrow> joinCSV_loop fs chunkPrefix (counter + 1) isFirstChunk out
           | Some (line, rest) \<Rightarrow>
               joinCSV_loop fs chunkPrefix (counter + 1) False
                 (copy_lines (read_lines rest)
                    (if isFirstChunk then out @ line @ [LF] else out))))"

definition joinCSV :: "fsys \<Rightarrow> string \<Rightarrow> string \<Rightarrow> (report \<times> fsys) option" where
  "joinCSV fs chunkPrefix outputFile =
     (if \<not> writable fs outputFile then Some (CSVJoinOutputError, fs)
      else
        (case joinCSV_loop (write_file fs outputFile []) chunkPrefix 1 True [] of
           None \<Rightarrow> None
         | Some out \<Rightarrow> Some (CSVAssemblyComplete, write_file fs outputFile out)))"

subsection \<open>What the chunkers write\<close>

text \<open>
  Functions used to state results. \<open>chunks\<close> cuts a byte string the way successive
  \<open>read\<close> calls do: full chunks, then the remainder (which is empty when the length is a
  multiple of the chunk size). \<open>write_parts\<close> stores a list of contents under consecutive
  part names.
\<close>

function chunks :: "nat \<Rightarrow> string \<Rightarrow> string list" where
  "chunks chunkSize rest =
     (if chunkSize = 0 \<or> length rest < chunkSize then [rest]
      else take chunkSize rest # chunks chunkSize (drop chunkSize rest))"
  by pat_completeness auto
termination
  by (relation "measure (\<lambda>(chunkSize, rest). length rest)") auto

declare chunks.simps [simp del]

fun write_parts :: "fsys \<Rightarrow> string \<Rightarrow> string \<Rightarrow> nat \<Rightarrow> string list \<Rightarrow> fsys" where
  "write_parts fs chunkName extension counter [] = fs"
| "write_parts fs chunkName extension counter (bytes # others) =
     write_parts (write_file fs (part_name chunkName counter extension) bytes)
       chunkName extension (counter + 1) others"

text \<open>
  \<open>write_lines\<close> is the text of a list of lines, each followed by one newline.
  \<open>csv_groups\<close> follows the test of \<open>chunkCSV_loop\<close>: its first element holds the lines
  that are appended to the part already open, the others the lines of each new part.
\<close>

definition write_lines :: "string list \<Rightarrow> string" where
  "write_lines lines = concat (map (\<lambda>line. line @ [LF]) lines)"

fun add_line :: "string \<Rightarrow> string list list \<Rightarrow> string list list" where
  "add_line line [] = [[line]]"
| "add_line line (g # gs) = (line # g) # gs"

fun csv_groups :: "nat \<Rightarrow> nat \<Rightarrow> string list \<Rightarrow> string list list" where
  "csv_groups chunkSize currentSize [] = [[]]"
| "csv_groups chunkSize currentSize (line # lines) =
     (if currentSize = 0 \<or> currentSize + length line > chunkSize
      then [] # add_line line (csv_groups chunkSize (length line) lines)
      else add_line line (csv_groups chunkSize (currentSize + length line) lines))"

text \<open>The lines of the parts written for a source, and the text of a part.\<close>

definition csv_parts :: "nat \<Rightarrow> string list \<Rightarrow> string list list" where
  "csv_parts chunkSize lines = tl (csv_groups chunkSize 0 lines)"

definition part_text :: "string \<Rightarrow> string list \<Rightarrow> string" where
  "part_text headerLine lines = headerLine @ [LF] @ write_lines lines"

section \<open>Properties\<close>

subsection \<open>Auxiliary facts: part names, chunks, written parts\<close>

lemma to_string_not_Nil: "to_string n \<noteq> []"
  by (subst to_string.simps) simp

lemma digit_char_inj: "a < 10 \<Longrightarrow> b < 10 \<Longrightarrow> digit_char a = digit_char b \<Longrightarrow> a = b"
proof -
  assume a: "a < 10" and b: "b < 10" and e: "digit_char a = digit_char b"
  have d: "distinct ''0123456789''" by simp
  have "length ''0123456789'' = 10" by simp
  with a b e d show "a = b"
    unfolding digit_char_def by (metis nth_eq_iff_index_eq)
qed

lemma to_string_inj: "to_string n = to_string m \<Longrightarrow> n = m"
proof (induction n arbitrary: m rule: to_string.induct)
  case (1 n)
  show ?case
  proof (cases "n < 10")
    case True
    then have n: "to_string n = [digit_char n]" by (subst to_string.simps) simp
    show ?thesis
    proof (cases "m < 10")
      case True
      then have "to_string m = [digit_char m]" by (subst to_string.simps) simp
      with n "1.prems" have "digit_char n = digit_char m" by simp
      with \<open>n < 10\<close> True show ?thesis by (rule digit_char_inj)
    next
      case False
      then have "to_string m = to_string (m div 10) @ [digit_char (m mod 10)]"
        by (subst to_string.simps) simp
      with n "1.prems" to_string_not_Nil [of "m div 10"] show ?thesis by simp
    qed
  next
    case False
    then have n: "to_string n = to_string (n div 10) @ [digit_char (n mod 10)]"
      by (subst to_string.simps) simp
    show ?thesis
    proof (cases "m < 10")
      case True
      then have "to_string m = [digit_char m]" by (subst to_string.simps) simp
      with n "1.prems" to_string_not_Nil [of "n div 10"] show ?thesis by simp
    next
      case m: False
      then have "to_string m = to_string (m div 10) @ [digit_char (m mod 10)]"
        by (subst to_string.simps) simp
      with n "1.prems" have e: "to_string (n div 10) = to_string (m div 10)"
        and d: "digit_char (n mod 10) = digit_char (m mod 10)" by simp_all
      from "1.IH" [OF False e] have q: "n div 10 = m div 10" .
      have "n mod 10 = m mod 10" by (rule digit_char_inj [OF _ _ d]) simp_all
      with q show ?thesis by (metis div_mult_mod_eq)
    qed
  qed
qed

lemma part_name_inj [simp]: "part_name p a e = part_name p b e \<longleftrightarrow> a = b"
  by (auto simp: part_name_def dest: to_string_inj)


lemma writable_write_file [simp]: "writable (write_file fs n b) = writable fs"
  by (simp add: write_file_def)

lemma files_write_file [simp]: "files (write_file fs n b) = (files fs)(n \<mapsto> b)"
  by (simp add: write_file_def)

lemma chunkFile_loop_parts:
  "0 < chunkSize \<Longrightarrow> \<forall>k. writable fs (part_name p k e) \<Longrightarrow>
   chunkFile_loop fs p e chunkSize rest False c =
     Some (write_parts fs p e c (chunks chunkSize rest), c + length (chunks chunkSize rest))"
proof (induction chunkSize rest arbitrary: fs c rule: chunks.induct)
  case (1 chunkSize rest)
  let ?n = "part_name p c e"
  let ?fs1 = "write_file fs ?n (take chunkSize rest)"
  have w: "writable fs ?n" using "1.prems" by blast
  show ?case
  proof (cases "length rest < chunkSize")
    case True
    then have c: "chunks chunkSize rest = [rest]" by (subst chunks.simps) simp
    have "chunkFile_loop fs p e chunkSize rest False c =
            chunkFile_loop ?fs1 p e chunkSize (drop chunkSize rest) True (c + 1)"
      using w True by (subst chunkFile_loop.simps) simp
    also have "\<dots> = Some (?fs1, c + 1)"
      by (subst chunkFile_loop.simps) simp
    finally show ?thesis using True c by simp
  next
    case False
    with "1.prems" have c: "chunks chunkSize rest =
        take chunkSize rest # chunks chunkSize (drop chunkSize rest)"
      by (subst chunks.simps) simp
    have w1: "\<forall>k. writable ?fs1 (part_name p k e)" using "1.prems" by simp
    have "chunkFile_loop fs p e chunkSize rest False c =
            chunkFile_loop ?fs1 p e chunkSize (drop chunkSize rest) False (c + 1)"
      using w False by (subst chunkFile_loop.simps) simp
    also have "\<dots> = Some (write_parts ?fs1 p e (c + 1) (chunks chunkSize (drop chunkSize rest)),
                  c + 1 + length (chunks chunkSize (drop chunkSize rest)))"
      using "1.IH" [OF _ "1.prems"(1) w1] False "1.prems"(1) by simp
    finally show ?thesis using c by simp
  qed
qed

lemma concat_chunks: "concat (chunks chunkSize rest) = rest"
  by (induction chunkSize rest rule: chunks.induct) (subst chunks.simps, simp)

lemma length_chunks: "0 < chunkSize \<Longrightarrow> length (chunks chunkSize rest) = length rest div chunkSize + 1"
proof (induction chunkSize rest rule: chunks.induct)
  case (1 chunkSize rest)
  show ?case
  proof (cases "length rest < chunkSize")
    case True
    then show ?thesis by (subst chunks.simps) simp
  next
    case False
    then have "length rest div chunkSize = (length rest - chunkSize) div chunkSize + 1"
      using "1.prems" by (simp add: le_div_geq)
    with False "1.prems" "1.IH" show ?thesis by (subst chunks.simps) simp
  qed
qed

lemma write_parts_frame:
  "\<forall>k\<ge>c. name \<noteq> part_name p k e \<Longrightarrow> files (write_parts fs p e c cs) name = files fs name"
proof (induction cs arbitrary: fs c)
  case Nil
  then show ?case by simp
next
  case (Cons b cs)
  have "files (write_parts (write_file fs (part_name p c e) b) p e (c + 1) cs) name
        = files (write_file fs (part_name p c e) b) name"
    using Cons.prems by (intro Cons.IH) simp
  with Cons.prems show ?case by simp
qed

lemma writable_write_parts [simp]: "writable (write_parts fs p e c cs) = writable fs"
  by (induction cs arbitrary: fs c) simp_all

lemma write_parts_lookup:
  "j < length cs \<Longrightarrow> files (write_parts fs p e c cs) (part_name p (c + j) e) = Some (cs ! j)"
proof (induction cs arbitrary: fs c j)
  case Nil
  then show ?case by simp
next
  case (Cons b cs)
  show ?case
  proof (cases j)
    case 0
    have "files (write_parts (write_file fs (part_name p c e) b) p e (c + 1) cs) (part_name p c e)
          = files (write_file fs (part_name p c e) b) (part_name p c e)"
      by (rule write_parts_frame) simp
    with 0 show ?thesis by simp
  next
    case (Suc i)
    with Cons.prems have "i < length cs" by simp
    from Cons.IH [OF this, of "write_file fs (part_name p c e) b" "c + 1"] Suc
    show ?thesis by simp
  qed
qed

lemma joinFile_loop_parts:
  "files fs (part_name p (c + length cs) e) = None \<Longrightarrow>
   joinFile_loop (write_parts fs p e c cs) p e c out = Some (out @ concat cs)"
proof (induction cs arbitrary: fs c out)
  case Nil
  then show ?case by (subst joinFile_loop.simps) simp
next
  case (Cons b cs)
  let ?fs1 = "write_file fs (part_name p c e) b"
  let ?fs' = "write_parts ?fs1 p e (c + 1) cs"
  have "files ?fs' (part_name p c e) = files ?fs1 (part_name p c e)"
    by (rule write_parts_frame) simp
  then have here: "files ?fs' (part_name p c e) = Some b" by simp
  have "files ?fs1 (part_name p (c + 1 + length cs) e) = None"
    using Cons.prems by simp
  from Cons.IH [OF this] have "joinFile_loop ?fs' p e (c + 1) (out @ b) = Some ((out @ b) @ concat cs)" .
  with here show ?case by (subst joinFile_loop.simps) simp
qed

lemma to_string_Suc_0 [simp]: "to_string (Suc 0) = ''1''"
  by (subst to_string.simps) (simp add: digit_char_def)

lemma chunkFile_loop_stuck:
  assumes "chunkFile_loop fs p e chunkSize rest eof c = Some y"
  shows "eof \<or> writable fs (part_name p c e)"
proof (rule chunkFile_loop.raw_induct
    [where P = "\<lambda>fs p e chunkSize rest eof c y. eof \<or> writable fs (part_name p c e)", OF _ assms])
  fix loop :: "fsys \<Rightarrow> string \<Rightarrow> string \<Rightarrow> nat \<Rightarrow> string \<Rightarrow> bool \<Rightarrow> nat \<Rightarrow> (fsys \<times> nat) option"
  fix fs p e chunkSize rest eof c y
  assume IH: "\<And>fs p e chunkSize rest eof c y.
      loop fs p e chunkSize rest eof c = Some y \<Longrightarrow> eof \<or> writable fs (part_name p c e)"
  assume body: "(if eof then Some (fs, c)
      else if writable fs (part_name p c e)
        then loop (write_file fs (part_name p c e) (take chunkSize rest)) p e chunkSize
               (drop chunkSize rest) (length rest < chunkSize) (c + 1)
        else loop fs p e chunkSize rest eof c) = Some y"
  show "eof \<or> writable fs (part_name p c e)"
  proof (rule ccontr)
    assume "\<not> (eof \<or> writable fs (part_name p c e))"
    then have stuck: "\<not> eof" "\<not> writable fs (part_name p c e)" by simp_all
    with body have "loop fs p e chunkSize rest eof c = Some y" by simp
    from IH [OF this] stuck show False by simp
  qed
qed

lemma write_file_commute:
  "a \<noteq> b \<Longrightarrow> write_file (write_file fs a x) b y = write_file (write_file fs b y) a x"
  by (simp add: write_file_def fun_upd_twist)

lemma write_parts_commute:
  "\<forall>k. part_name p k e \<noteq> name \<Longrightarrow>
   write_file (write_parts fs p e c cs) name x = write_parts (write_file fs name x) p e c cs"
proof (induction cs arbitrary: fs c)
  case Nil
  show ?case by simp
next
  case (Cons b cs)
  have "part_name p c e \<noteq> name" using Cons.prems by blast
  then have "write_file (write_file fs (part_name p c e) b) name x
             = write_file (write_file fs name x) (part_name p c e) b"
    by (rule write_file_commute)
  with Cons.IH [OF Cons.prems] show ?case by simp
qed

lemma joinFile_loop_prefix:
  assumes "\<forall>i. c \<le> i \<and> i < k \<longrightarrow> files fs (part_name p i e) \<noteq> None"
    and "files fs (part_name p k e) = None" and "c \<le> k"
  shows "joinFile_loop fs p e c out =
           Some (out @ concat (map (\<lambda>i. the (files fs (part_name p i e))) [c..<k]))"
  using assms
proof (induction "k - c" arbitrary: c out)
  case 0
  then have "c = k" by simp
  with "0.prems" show ?case by (subst joinFile_loop.simps) simp
next
  case (Suc d)
  then have lt: "c < k" by simp
  with Suc.prems obtain bytes where b: "files fs (part_name p c e) = Some bytes" by auto
  have "joinFile_loop fs p e (c + 1) (out @ bytes) =
          Some ((out @ bytes) @ concat (map (\<lambda>i. the (files fs (part_name p i e))) [c + 1..<k]))"
    using Suc.hyps(2) Suc.prems lt by (intro Suc.hyps(1)) auto
  moreover have "[c..<k] = c # [c + 1..<k]" using lt by (simp add: upt_conv_Cons)
  ultimately show ?case using b by (subst joinFile_loop.simps) simp
qed

text \<open>A buffer of \<open>2 ^ 63\<close> bytes or more is never allocated: no part is written.\<close>

lemma chunkFile_bad_alloc:
  "files fs fullFilePath = Some src \<Longrightarrow> 2 ^ 63 \<le> chunkSize \<Longrightarrow>
   chunkFile fs fullFilePath chunkName chunkSize = Some (BadAlloc, fs)"
  by (simp add: chunkFile_def)

subsection \<open>The binary pipeline\<close>



text \<open>
  Claim C3, evaluated where it fails. The source holds ten bytes and part 1 cannot be
  opened for writing. The body of the loop in \<open>chunkFile\<close> is skipped, nothing is
  printed, neither the counter nor the stream changes, and the loop condition is tested
  again: the function does not return (\<open>None\<close>). By \<open>chunkFile_loop_stuck\<close> this is so
  whenever the part in turn cannot be opened.
\<close>

theorem chunkFile_unopenable_part_diverges:
  "chunkFile \<lparr>files = [''src.bin'' \<mapsto> ''ABCDEFGHIJ''], writable = (\<lambda>n. n \<noteq> ''p1.bin'')\<rparr>
     ''src.bin'' ''p'' 4 = None"
proof -
  let ?fs = "\<lparr>files = [''src.bin'' \<mapsto> ''ABCDEFGHIJ''], writable = (\<lambda>n. n \<noteq> ''p1.bin'')\<rparr>"
  have e: "originalExtension ''src.bin'' = ''.bin''" by (simp add: originalExtension_def)
  have "chunkFile_loop ?fs ''p'' ''.bin'' 4 ''ABCDEFGHIJ'' False 1 = None"
  proof (cases "chunkFile_loop ?fs ''p'' ''.bin'' 4 ''ABCDEFGHIJ'' False 1")
    case None
    then show ?thesis .
  next
    case (Some y)
    from chunkFile_loop_stuck [OF this] show ?thesis by (simp add: part_name_def)
  qed
  then show ?thesis by (simp add: chunkFile_def e)
qed

text \<open>
  Claim C4, evaluated where it fails. A source of 8 bytes with chunk size 4 gives three
  parts, the third one empty, where \<open>\<lceil>8 / 4\<rceil> = 2\<close>: after the second full \<open>read\<close> the
  eofbit is not yet set, so the loop opens one more part. In general the count is
  \<open>length src div chunkSize + 1\<close> (\<open>chunkFile_loop_parts\<close>, \<open>length_chunks\<close>).
\<close>

theorem chunkFile_trailing_empty_part:
  "chunkFile \<lparr>files = [''src.bin'' \<mapsto> ''ABCDEFGH''], writable = (\<lambda>_. True)\<rparr> ''src.bin'' ''p'' 4 =
     Some (BinaryChunkingComplete 3,
           \<lparr>files = [''src.bin'' \<mapsto> ''ABCDEFGH'', ''p1.bin'' \<mapsto> ''ABCD'', ''p2.bin'' \<mapsto> ''EFGH'',
                      ''p3.bin'' \<mapsto> []], writable = (\<lambda>_. True)\<rparr>)"
  by (simp add: chunkFile_def originalExtension_def chunkFile_loop.simps part_name_def
      to_string.simps digit_char_def write_file_def)

text \<open>
  Claim C7. When parts \<open>1, \<dots>, k - 1\<close> exist and part \<open>k\<close> does not, \<open>joinFile\<close> writes
  the concatenation of parts \<open>1, \<dots>, k - 1\<close> to the output and prints its completion
  message, whatever parts exist beyond \<open>k\<close>; for \<open>k = 1\<close> the output is empty. The
  output must open and must not itself have the name of a part.
\<close>

theorem joinFile_stops_at_first_missing_part:
  assumes out: "writable fs fileOutput"
    and distinct_names: "\<forall>i. part_name chunkName i extension \<noteq> fileOutput"
    and k: "1 \<le> k" "k < 2 ^ 32"
    and found: "\<forall>i. 1 \<le> i \<and> i < k \<longrightarrow> files fs (part_name chunkName i extension) \<noteq> None"
    and missing: "files fs (part_name chunkName k extension) = None"
  shows "joinFile fs chunkName fileOutput extension =
           Some (BinaryAssemblyComplete,
                 write_file fs fileOutput
                   (concat (map (\<lambda>i. the (files fs (part_name chunkName i extension))) [1..<k])))"
proof -
  let ?fs0 = "write_file fs fileOutput []"
  have same: "files ?fs0 (part_name chunkName i extension) = files fs (part_name chunkName i extension)"
    for i using distinct_names by simp
  have "joinFile_loop ?fs0 chunkName extension 1 [] =
          Some ([] @ concat (map (\<lambda>i. the (files ?fs0 (part_name chunkName i extension))) [1..<k]))"
    using found missing k(1) distinct_names by (intro joinFile_loop_prefix) simp_all
  also have "map (\<lambda>i. the (files ?fs0 (part_name chunkName i extension))) [1..<k] =
             map (\<lambda>i. the (files fs (part_name chunkName i extension))) [1..<k]"
    by (simp only: same)
  finally show ?thesis using out by (simp add: joinFile_def)
qed

theorem joinFile_stops_at_first_missing_part_witness:
  "joinFile \<lparr>files = [''p1.bin'' \<mapsto> ''ABCD'', ''p3.bin'' \<mapsto> ''IJ''], writable = (\<lambda>_. True)\<rparr>
     ''p'' ''output.bin'' ''.bin'' =
   Some (BinaryAssemblyComplete,
         \<lparr>files = [''p1.bin'' \<mapsto> ''ABCD'', ''p3.bin'' \<mapsto> ''IJ'', ''output.bin'' \<mapsto> ''ABCD''],
            writable = (\<lambda>_. True)\<rparr>)"
proof -
  let ?fs = "\<lparr>files = [''p1.bin'' \<mapsto> ''ABCD'', ''p3.bin'' \<mapsto> ''IJ''], writable = (\<lambda>_. True)\<rparr>"
  have found: "\<forall>i. 1 \<le> i \<and> i < 2 \<longrightarrow> files ?fs (part_name ''p'' i ''.bin'') \<noteq> None"
  proof (intro allI impI)
    fix i :: nat
    assume "1 \<le> i \<and> i < 2"
    then have "i = Suc 0" by simp
    then show "files ?fs (part_name ''p'' i ''.bin'') \<noteq> None" by (simp add: part_name_def)
  qed
  have two: "to_string 2 = ''2''" by (subst to_string.simps) (simp add: digit_char_def)
  have missing: "files ?fs (part_name ''p'' 2 ''.bin'') = None" by (simp add: part_name_def two)
  have distinct_names: "\<forall>i. part_name ''p'' i ''.bin'' \<noteq> ''output.bin''" by (simp add: part_name_def)
  have "[1..<2] = [1::nat]" by (simp add: upt_rec)
  with joinFile_stops_at_first_missing_part [OF _ distinct_names _ _ found missing]
  show ?thesis by (simp add: write_file_def part_name_def)
qed

text \<open>
  Claim C1. Chunking a source and joining with the same prefix and the extension of the
  source gives back the bytes of the source, for every chunk size of at least one byte
  for which the buffer can be allocated (below \<open>2 ^ 63\<close>), the empty source included.
  The other conditions describe the directory: every part and the
  output can be opened for writing, no part has the path of the source or of the output,
  and no file is left under the name of the part after the last one written (the joiner
  would take it for a further part).
\<close>

theorem binary_round_trip:
  assumes src: "files fs fullFilePath = Some src"
    and size: "0 < chunkSize" "chunkSize < 2 ^ 63"
    and parts: "\<forall>k. writable fs (part_name chunkName k (originalExtension fullFilePath))"
    and distinct_names: "\<forall>k. part_name chunkName k (originalExtension fullFilePath) \<noteq> fullFilePath"
    and fresh: "files fs (part_name chunkName (length src div chunkSize + 2)
                  (originalExtension fullFilePath)) = None"
    and out: "writable fs fileOutput"
      "\<forall>k. part_name chunkName k (originalExtension fullFilePath) \<noteq> fileOutput"
    and bound: "length src div chunkSize + 2 < 2 ^ 31"
  shows "\<exists>fs1 fs2.
           chunkFile fs fullFilePath chunkName chunkSize =
             Some (BinaryChunkingComplete (length src div chunkSize + 1), fs1) \<and>
           joinFile fs1 chunkName fileOutput (originalExtension fullFilePath) =
             Some (BinaryAssemblyComplete, fs2) \<and>
           files fs2 fileOutput = Some src"
proof -
  let ?e = "originalExtension fullFilePath"
  let ?cs = "chunks chunkSize src"
  let ?fs1 = "write_parts fs chunkName ?e 1 ?cs"
  let ?fs0 = "write_file fs fileOutput []"
  have len: "length ?cs = length src div chunkSize + 1" using size(1) by (rule length_chunks)
  have "chunkFile_loop fs chunkName ?e chunkSize src False 1 = Some (?fs1, 1 + length ?cs)"
    using size(1) parts by (rule chunkFile_loop_parts)
  then have chunk: "chunkFile fs fullFilePath chunkName chunkSize =
      Some (BinaryChunkingComplete (length src div chunkSize + 1), ?fs1)"
    using src len size(2) by (simp add: chunkFile_def)
  have "files ?fs0 (part_name chunkName (1 + length ?cs) ?e) = None"
    using fresh out(2) len by simp
  then have "joinFile_loop (write_parts ?fs0 chunkName ?e 1 ?cs) chunkName ?e 1 [] =
               Some ([] @ concat ?cs)"
    by (rule joinFile_loop_parts)
  moreover have "write_file ?fs1 fileOutput [] = write_parts ?fs0 chunkName ?e 1 ?cs"
    using out(2) by (rule write_parts_commute)
  ultimately have "joinFile_loop (write_file ?fs1 fileOutput []) chunkName ?e 1 [] = Some src"
    by (simp add: concat_chunks)
  then have "joinFile ?fs1 chunkName fileOutput ?e =
      Some (BinaryAssemblyComplete, write_file ?fs1 fileOutput src)"
    using out(1) by (simp add: joinFile_def)
  with chunk show ?thesis by simp
qed

theorem binary_round_trip_witness:
  "\<exists>fs1 fs2.
     chunkFile \<lparr>files = [''src.bin'' \<mapsto> ''ABCDEFGHIJ''], writable = (\<lambda>_. True)\<rparr> ''src.bin'' ''p'' 4 =
       Some (BinaryChunkingComplete 3, fs1) \<and>
     joinFile fs1 ''p'' ''output.bin'' ''.bin'' = Some (BinaryAssemblyComplete, fs2) \<and>
     files fs2 ''output.bin'' = Some ''ABCDEFGHIJ''"
proof -
  let ?fs = "\<lparr>files = [''src.bin'' \<mapsto> ''ABCDEFGHIJ''], writable = (\<lambda>_. True)\<rparr>"
  have e: "originalExtension ''src.bin'' = ''.bin''" by (simp add: originalExtension_def)
  have four: "to_string 4 = ''4''" by (subst to_string.simps) (simp add: digit_char_def)
  have fresh: "files ?fs (part_name ''p'' (length ''ABCDEFGHIJ'' div 4 + 2) ''.bin'') = None"
    by (simp add: part_name_def four)
  have distinct_names: "\<forall>k. part_name ''p'' k ''.bin'' \<noteq> ''src.bin''"
    and out: "\<forall>k. part_name ''p'' k ''.bin'' \<noteq> ''output.bin''"
    by (simp_all add: part_name_def)
  from binary_round_trip [of ?fs "''src.bin''" "''ABCDEFGHIJ''" 4 "''p''" "''output.bin''"]
    fresh distinct_names out
  show ?thesis by (simp add: e)
qed

subsection \<open>Auxiliary facts: lines, groups of lines, the loops of the line-oriented pipeline\<close>

lemma writable_append_file [simp]: "writable (append_file fs n b) = writable fs"
  by (simp add: append_file_def split: option.splits)

lemma write_file_twice [simp]: "write_file (write_file fs n a) n b = write_file fs n b"
  by (simp add: write_file_def)

lemma append_after_write [simp]: "append_file (write_file fs n a) n b = write_file fs n (a @ b)"
  by (simp add: append_file_def)

lemma append_file_Nil [simp]: "append_file fs n [] = fs"
  by (simp add: append_file_def write_file_def map_upd_triv split: option.splits)

lemma append_file_twice [simp]:
  "append_file (append_file fs n a) n b = append_file fs n (a @ b)"
  by (simp add: append_file_def split: option.splits)

lemma write_lines_Nil [simp]: "write_lines [] = []"
  by (simp add: write_lines_def)

lemma write_lines_Cons [simp]: "write_lines (l # ls) = l @ LF # write_lines ls"
  by (simp add: write_lines_def)

lemma write_lines_append [simp]: "write_lines (xs @ ys) = write_lines xs @ write_lines ys"
  by (simp add: write_lines_def)

lemma csv_groups_not_Nil [simp]: "csv_groups T sz ls \<noteq> []"
proof (cases ls)
  case Nil
  then show ?thesis by simp
next
  case (Cons l ls')
  show ?thesis
  proof (cases "csv_groups T (sz + length l) ls'")
    case Nil
    with Cons show ?thesis by simp
  next
    case (Cons g gs)
    with \<open>ls = l # ls'\<close> show ?thesis by simp
  qed
qed

lemma concat_add_line: "G \<noteq> [] \<Longrightarrow> concat (add_line l G) = l # concat G"
  by (cases G) simp_all

lemma concat_csv_groups: "concat (csv_groups T sz ls) = ls"
  by (induction ls arbitrary: sz) (simp_all add: concat_add_line)

lemma hd_csv_groups_0: "hd (csv_groups T 0 ls) = []"
  by (cases ls) simp_all

lemma chunkCSV_loop_parts:
  assumes "\<forall>k. writable fs (part_name p k ''.csv'')"
  shows "chunkCSV_loop fs p T h ls cur sz c =
     (CSVChunkingComplete (c + length (tl (csv_groups T sz ls)) - 1),
      write_parts
        (case cur of None \<Rightarrow> fs
         | Some n \<Rightarrow> append_file fs n (write_lines (hd (csv_groups T sz ls))))
        p ''.csv'' c (map (part_text h) (tl (csv_groups T sz ls))))"
  using assms
proof (induction ls arbitrary: fs cur sz c)
  case Nil
  show ?case by (simp split: option.splits)
next
  case (Cons l ls)
  let ?n = "part_name p c ''.csv''"
  show ?case
  proof (cases "sz = 0 \<or> sz + length l > T")
    case True
    obtain g gs where G: "csv_groups T (length l) ls = g # gs"
      using csv_groups_not_Nil [of T "length l" ls] by (cases "csv_groups T (length l) ls") auto
    let ?fs3 = "write_file fs ?n (h @ [LF] @ l @ [LF])"
    have w: "\<forall>k. writable ?fs3 (part_name p k ''.csv'')" using Cons.prems by simp
    have "chunkCSV_loop fs p T h (l # ls) cur sz c =
            chunkCSV_loop ?fs3 p T h ls (Some ?n) (length l) (c + 1)"
      using True Cons.prems by (simp add: Let_def)
    also have "\<dots> = (CSVChunkingComplete (c + 1 + length gs - 1),
        write_parts (write_file fs ?n (part_text h (l # g))) p ''.csv'' (c + 1)
          (map (part_text h) gs))"
      using Cons.IH [OF w, of "Some ?n" "length l" "c + 1"] G
      by (simp add: part_text_def [of h "l # g"])
    finally show ?thesis using True G by (simp split: option.splits)
  next
    case False
    obtain g gs where G: "csv_groups T (sz + length l) ls = g # gs"
      using csv_groups_not_Nil [of T "sz + length l" ls]
      by (cases "csv_groups T (sz + length l) ls") auto
    have G2: "csv_groups T sz (l # ls) = (l # g) # gs" using False G by simp
    let ?fs1 = "case cur of None \<Rightarrow> fs | Some n \<Rightarrow> append_file fs n (l @ [LF])"
    have w: "\<forall>k. writable ?fs1 (part_name p k ''.csv'')"
      using Cons.prems by (simp split: option.splits)
    have "chunkCSV_loop fs p T h (l # ls) cur sz c =
            chunkCSV_loop ?fs1 p T h ls cur (sz + length l) c"
      using False by simp
    also have "\<dots> = (CSVChunkingComplete (c + length gs - 1),
        write_parts (case cur of None \<Rightarrow> fs
                     | Some n \<Rightarrow> append_file fs n (write_lines (l # g)))
          p ''.csv'' c (map (part_text h) gs))"
      using Cons.IH [OF w, of cur "sz + length l" c] G
      by (simp split: option.splits)
    finally show ?thesis using G2 by (simp cong: option.case_cong)
  qed
qed

lemma chunkCSV_parts:
  assumes "files fs csvPath = Some src" and "getline src = Some (h, rest)"
    and "\<forall>k. writable fs (part_name p k ''.csv'')"
  shows "chunkCSV fs csvPath p T =
     (CSVChunkingComplete (length (csv_parts T (read_lines rest))),
      write_parts fs p ''.csv'' 1 (map (part_text h) (csv_parts T (read_lines rest))))"
  using assms(1,2) chunkCSV_loop_parts [OF assms(3), of T h "read_lines rest" None 0 1]
  by (simp add: chunkCSV_def csv_parts_def)

lemma concat_csv_parts: "concat (csv_parts T ls) = ls"
proof -
  have "concat (csv_groups T 0 ls) = hd (csv_groups T 0 ls) @ concat (tl (csv_groups T 0 ls))"
    using csv_groups_not_Nil [of T 0 ls] by (cases "csv_groups T 0 ls") simp_all
  then show ?thesis by (simp add: csv_parts_def concat_csv_groups hd_csv_groups_0)
qed

lemma nth_add_line: "G \<noteq> [] \<Longrightarrow> 0 < j \<Longrightarrow> add_line l G ! j = G ! j"
  by (cases G; cases j) simp_all

lemma length_add_line: "G \<noteq> [] \<Longrightarrow> length (add_line l G) = length G"
  by (cases G) simp_all

lemma long_line_alone:
  "i < length ls \<Longrightarrow> T < length (ls ! i) \<Longrightarrow>
   \<exists>j. 0 < j \<and> j < length (csv_groups T sz ls) \<and> csv_groups T sz ls ! j = [ls ! i]"
proof (induction ls arbitrary: sz i)
  case Nil
  then show ?case by simp
next
  case (Cons l ls)
  show ?case
  proof (cases i)
    case 0
    with Cons.prems have long: "T < length l" by simp
    then have new: "sz = 0 \<or> sz + length l > T" by simp
    have "hd (csv_groups T (length l) ls) = []"
    proof (cases ls)
      case Nil
      then show ?thesis by simp
    next
      case (Cons l' ls')
      with long show ?thesis by simp
    qed
    then obtain gs where "csv_groups T (length l) ls = [] # gs"
      using csv_groups_not_Nil [of T "length l" ls]
      by (cases "csv_groups T (length l) ls") auto
    with new 0 show ?thesis by (intro exI [of _ 1]) simp
  next
    case (Suc i')
    with Cons.prems have i': "i' < length ls" "T < length (ls ! i')" by simp_all
    show ?thesis
    proof (cases "sz = 0 \<or> sz + length l > T")
      case True
      from Cons.IH [OF i', of "length l"] obtain j where
        j: "0 < j" "j < length (csv_groups T (length l) ls)"
          "csv_groups T (length l) ls ! j = [ls ! i']" by blast
      with True Suc show ?thesis
        by (intro exI [of _ "Suc j"]) (simp add: nth_add_line length_add_line)
    next
      case False
      from Cons.IH [OF i', of "sz + length l"] obtain j where
        j: "0 < j" "j < length (csv_groups T (sz + length l) ls)"
          "csv_groups T (sz + length l) ls ! j = [ls ! i']" by blast
      with False Suc show ?thesis
        by (intro exI [of _ j]) (simp add: nth_add_line length_add_line)
    qed
  qed
qed

lemma getline_Nil [simp]: "getline [] = None"
  by (simp add: getline_def)

lemma getline_line: "LF \<notin> set h \<Longrightarrow> getline (h @ LF # rest) = Some (h, rest)"
proof -
  assume "LF \<notin> set h"
  then have h: "\<And>x. x \<in> set h \<Longrightarrow> x \<noteq> LF" by auto
  have "takeWhile (\<lambda>c. c \<noteq> LF) (h @ LF # rest) = h @ takeWhile (\<lambda>c. c \<noteq> LF) (LF # rest)"
    using h by (rule takeWhile_append2)
  moreover have "dropWhile (\<lambda>c. c \<noteq> LF) (h @ LF # rest) = dropWhile (\<lambda>c. c \<noteq> LF) (LF # rest)"
    using h by (rule dropWhile_append2)
  ultimately show ?thesis by (simp add: getline_def)
qed

lemma getline_no_LF: "getline s = Some (l, r) \<Longrightarrow> LF \<notin> set l"
  by (auto simp: getline_def split: if_splits dest: set_takeWhileD)

lemma read_lines_Nil [simp]: "read_lines [] = []"
  by (subst read_lines.simps) simp

lemma read_lines_line: "LF \<notin> set h \<Longrightarrow> read_lines (h @ LF # rest) = h # read_lines rest"
  by (subst read_lines.simps) (simp add: getline_line)

lemma read_lines_write_lines:
  "\<forall>l\<in>set ls. LF \<notin> set l \<Longrightarrow> read_lines (write_lines ls) = ls"
  by (induction ls) (simp_all add: read_lines_line)

lemma read_lines_no_LF: "l \<in> set (read_lines s) \<Longrightarrow> LF \<notin> set l"
proof (induction s rule: read_lines.induct)
  case (1 input)
  show ?case
  proof (cases "getline input")
    case None
    with "1.prems" show ?thesis by (subst (asm) read_lines.simps) simp
  next
    case (Some a)
    obtain line rest where a: "a = (line, rest)" by (cases a)
    with Some "1.prems" have "l = line \<or> l \<in> set (read_lines rest)"
      by (subst (asm) read_lines.simps) auto
    then show ?thesis
    proof
      assume "l = line"
      with Some a show ?thesis by (auto dest: getline_no_LF)
    next
      assume "l \<in> set (read_lines rest)"
      with "1.IH" [OF Some a [symmetric]] show ?thesis .
    qed
  qed
qed

lemma read_lines_Cons:
  "read_lines src = h # ls \<Longrightarrow> \<exists>rest. getline src = Some (h, rest) \<and> read_lines rest = ls"
  by (subst (asm) read_lines.simps) (auto split: option.splits)

lemma copy_lines_eq: "copy_lines ls out = out @ write_lines ls"
  by (induction ls arbitrary: out) simp_all

lemma getline_part_text:
  "LF \<notin> set h \<Longrightarrow> getline (part_text h g) = Some (h, write_lines g)"
  by (simp add: part_text_def getline_line)

lemma read_lines_part_text:
  "LF \<notin> set h \<Longrightarrow> \<forall>l\<in>set g. LF \<notin> set l \<Longrightarrow> read_lines (part_text h g) = h # g"
  by (simp add: part_text_def read_lines_line read_lines_write_lines)

lemma joinCSV_loop_parts:
  assumes "LF \<notin> set h" and "\<forall>g\<in>set gs. \<forall>l\<in>set g. LF \<notin> set l"
    and "files fs (part_name p (c + length gs) ''.csv'') = None"
  shows "joinCSV_loop (write_parts fs p ''.csv'' c (map (part_text h) gs)) p c first out =
           Some (out @ (if first \<and> gs \<noteq> [] then h @ [LF] else []) @ write_lines (concat gs))"
  using assms(2,3)
proof (induction gs arbitrary: fs c first out)
  case Nil
  then show ?case by (subst joinCSV_loop.simps) simp
next
  case (Cons g gs)
  let ?fs1 = "write_file fs (part_name p c ''.csv'') (part_text h g)"
  let ?fs' = "write_parts ?fs1 p ''.csv'' (c + 1) (map (part_text h) gs)"
  let ?out1 = "copy_lines (read_lines (write_lines g)) (if first then out @ h @ [LF] else out)"
  have "files ?fs' (part_name p c ''.csv'') = files ?fs1 (part_name p c ''.csv'')"
    by (rule write_parts_frame) simp
  then have here: "files ?fs' (part_name p c ''.csv'') = Some (part_text h g)" by simp
  have g: "\<forall>l\<in>set g. LF \<notin> set l" and gs: "\<forall>g\<in>set gs. \<forall>l\<in>set g. LF \<notin> set l"
    using Cons.prems(1) by simp_all
  have out1: "?out1 = (if first then out @ h @ [LF] else out) @ write_lines g"
    using g by (simp add: read_lines_write_lines copy_lines_eq)
  have "files ?fs1 (part_name p (c + 1 + length gs) ''.csv'') = None"
    using Cons.prems(2) by simp
  from Cons.IH [OF gs this, of False ?out1]
  have rest: "joinCSV_loop ?fs' p (c + 1) False ?out1 = Some (?out1 @ write_lines (concat gs))"
    by simp
  have "joinCSV_loop ?fs' p c first out = joinCSV_loop ?fs' p (c + 1) False ?out1"
    using here assms(1) by (subst joinCSV_loop.simps) (simp add: getline_part_text)
  with rest out1 show ?case by simp
qed

lemma csv_parts_no_LF:
  assumes "\<forall>l\<in>set ls. LF \<notin> set l" and "m < length (csv_parts T ls)"
  shows "\<forall>l\<in>set (csv_parts T ls ! m). LF \<notin> set l"
proof -
  have "csv_parts T ls ! m \<in> set (csv_parts T ls)" using assms(2) by (rule nth_mem)
  then have "set (csv_parts T ls ! m) \<subseteq> set (concat (csv_parts T ls))" by auto
  then show ?thesis using assms(1) by (auto simp: concat_csv_parts)
qed

lemma chunkCSV_part_lookup:
  assumes "files fs csvPath = Some src" and "getline src = Some (h, rest)"
    and "\<forall>k. writable fs (part_name p k ''.csv'')"
    and "m < length (csv_parts T (read_lines rest))"
  shows "files (snd (chunkCSV fs csvPath p T)) (part_name p (1 + m) ''.csv'') =
           Some (part_text h (csv_parts T (read_lines rest) ! m))"
  using chunkCSV_parts [OF assms(1-3), of T] assms(4)
    write_parts_lookup [of m "map (part_text h) (csv_parts T (read_lines rest))" fs p "''.csv''" 1]
  by simp

subsection \<open>The line-oriented pipeline\<close>

text \<open>
  Claim C2. For a source with a header line and at least one data line, \<open>chunkCSV\<close>
  followed by \<open>joinCSV\<close> with the same prefix writes an output that consists of the
  header line once and then all data lines in their order, each followed by a newline;
  this holds for every threshold. The conditions describe the directory: every part and
  the output can be opened for writing, no part has the path of the source or of the
  output, and no file is left under the name of the part after the last one written
  (its index is the reported count plus one).
\<close>

theorem csv_round_trip:
  assumes src: "files fs csvPath = Some src"
    and lines: "read_lines src = headerLine # dataLines" "dataLines \<noteq> []"
    and parts: "\<forall>k. writable fs (part_name chunkPrefix k ''.csv'')"
    and distinct_names: "\<forall>k. part_name chunkPrefix k ''.csv'' \<noteq> csvPath"
    and fresh: "files fs (part_name chunkPrefix (length (csv_parts chunkSize dataLines) + 1) ''.csv'') = None"
    and out: "writable fs outputFile" "\<forall>k. part_name chunkPrefix k ''.csv'' \<noteq> outputFile"
    and bound: "length dataLines + 1 < 2 ^ 31"
  shows "\<exists>fs1 fs2 text.
           chunkCSV fs csvPath chunkPrefix chunkSize =
             (CSVChunkingComplete (length (csv_parts chunkSize dataLines)), fs1) \<and>
           joinCSV fs1 chunkPrefix outputFile = Some (CSVAssemblyComplete, fs2) \<and>
           files fs2 outputFile = Some text \<and>
           text = write_lines (headerLine # dataLines) \<and>
           read_lines text = headerLine # dataLines"
proof -
  let ?gs = "csv_parts chunkSize dataLines"
  let ?fs1 = "write_parts fs chunkPrefix ''.csv'' 1 (map (part_text headerLine) ?gs)"
  let ?fs0 = "write_file fs outputFile []"
  from lines(1) obtain rest where rest: "getline src = Some (headerLine, rest)"
    "read_lines rest = dataLines" by (auto dest: read_lines_Cons)
  have h: "LF \<notin> set headerLine" using rest(1) by (rule getline_no_LF)
  have d: "\<forall>l\<in>set dataLines. LF \<notin> set l"
    using read_lines_no_LF [of _ rest] rest(2) by auto
  have cat: "concat ?gs = dataLines" by (rule concat_csv_parts)
  then have gs: "\<forall>g\<in>set ?gs. \<forall>l\<in>set g. LF \<notin> set l" using d by (metis UN_I set_concat)
  have ne: "?gs \<noteq> []" using cat lines(2) by auto
  have chunk: "chunkCSV fs csvPath chunkPrefix chunkSize =
      (CSVChunkingComplete (length ?gs), ?fs1)"
    using chunkCSV_parts [OF src rest(1) parts, of chunkSize] rest(2) by simp
  have "files ?fs0 (part_name chunkPrefix (1 + length ?gs) ''.csv'') = None"
    using fresh out(2) by simp
  from joinCSV_loop_parts [OF h gs this, of True "[]"] ne cat
  have "joinCSV_loop (write_parts ?fs0 chunkPrefix ''.csv'' 1 (map (part_text headerLine) ?gs))
          chunkPrefix 1 True [] = Some (write_lines (headerLine # dataLines))"
    by simp
  moreover have "write_file ?fs1 outputFile [] =
      write_parts ?fs0 chunkPrefix ''.csv'' 1 (map (part_text headerLine) ?gs)"
    using out(2) by (rule write_parts_commute)
  ultimately have "joinCSV ?fs1 chunkPrefix outputFile =
      Some (CSVAssemblyComplete, write_file ?fs1 outputFile (write_lines (headerLine # dataLines)))"
    using out(1) by (simp add: joinCSV_def)
  moreover have "read_lines (write_lines (headerLine # dataLines)) = headerLine # dataLines"
    using h d by (intro read_lines_write_lines) simp
  ultimately show ?thesis using chunk by simp
qed

theorem csv_round_trip_witness:
  "\<exists>fs1 fs2.
     chunkCSV \<lparr>files = [''d.csv'' \<mapsto> ''id,val\<newline>1,a\<newline>2,b\<newline>3,c\<newline>''], writable = (\<lambda>_. True)\<rparr>
       ''d.csv'' ''p'' 3 = (CSVChunkingComplete 3, fs1) \<and>
     joinCSV fs1 ''p'' ''output.csv'' = Some (CSVAssemblyComplete, fs2) \<and>
     files fs2 ''output.csv'' = Some ''id,val\<newline>1,a\<newline>2,b\<newline>3,c\<newline>''"
proof -
  let ?src = "''id,val\<newline>1,a\<newline>2,b\<newline>3,c\<newline>''"
  let ?fs = "\<lparr>files = [''d.csv'' \<mapsto> ?src], writable = (\<lambda>_. True)\<rparr>"
  have lines: "read_lines ?src = [''id,val'', ''1,a'', ''2,b'', ''3,c'']"
    by (simp add: read_lines.simps getline_def)
  have gs: "length (csv_parts 3 [''1,a'', ''2,b'', ''3,c'']) = 3"
    by (simp add: csv_parts_def)
  have fresh: "files ?fs (part_name ''p'' (length (csv_parts 3 [''1,a'', ''2,b'', ''3,c'']) + 1) ''.csv'') = None"
    by (simp add: part_name_def)
  have names: "\<forall>k. part_name ''p'' k ''.csv'' \<noteq> ''d.csv''"
    "\<forall>k. part_name ''p'' k ''.csv'' \<noteq> ''output.csv''"
    by (simp_all add: part_name_def)
  from csv_round_trip [where fs = ?fs and csvPath = "''d.csv''" and src = ?src
      and headerLine = "''id,val''" and dataLines = "[''1,a'', ''2,b'', ''3,c'']"
      and chunkPrefix = "''p''" and chunkSize = 3 and outputFile = "''output.csv''",
      OF _ lines _ _ names(1) fresh _ names(2)]
  show ?thesis by (auto simp: gs)
qed

text \<open>
  Claim C9. A source with a header line and no data line, and likewise an empty source,
  makes \<open>chunkCSV\<close> write nothing and report zero files created.
\<close>

theorem chunkCSV_no_data_lines:
  assumes "files fs csvPath = Some src" and "length (read_lines src) \<le> 1"
  shows "chunkCSV fs csvPath chunkPrefix chunkSize = (CSVChunkingComplete 0, fs)"
proof (cases "getline src")
  case None
  with assms(1) show ?thesis by (simp add: chunkCSV_def)
next
  case (Some a)
  obtain headerLine rest where a: "a = (headerLine, rest)" by (cases a)
  with Some have "read_lines src = headerLine # read_lines rest"
    by (subst read_lines.simps) simp
  with assms(2) have "read_lines rest = []" by simp
  with assms(1) Some a show ?thesis by (simp add: chunkCSV_def)
qed

theorem chunkCSV_no_data_lines_witness:
  "chunkCSV \<lparr>files = [''d.csv'' \<mapsto> ''id,val\<newline>''], writable = (\<lambda>_. True)\<rparr> ''d.csv'' ''p'' 3 =
     (CSVChunkingComplete 0, \<lparr>files = [''d.csv'' \<mapsto> ''id,val\<newline>''], writable = (\<lambda>_. True)\<rparr>) \<and>
   chunkCSV \<lparr>files = [''d.csv'' \<mapsto> []], writable = (\<lambda>_. True)\<rparr> ''d.csv'' ''p'' 3 =
     (CSVChunkingComplete 0, \<lparr>files = [''d.csv'' \<mapsto> []], writable = (\<lambda>_. True)\<rparr>)"
proof -
  have "length (read_lines ''id,val\<newline>'') \<le> 1" "length (read_lines []) \<le> 1"
    by (simp_all add: read_lines.simps getline_def)
  with chunkCSV_no_data_lines [of "\<lparr>files = [''d.csv'' \<mapsto> ''id,val\<newline>''], writable = (\<lambda>_. True)\<rparr>"
      "''d.csv''" "''id,val\<newline>''" "''p''" 3]
    chunkCSV_no_data_lines [of "\<lparr>files = [''d.csv'' \<mapsto> []], writable = (\<lambda>_. True)\<rparr>"
      "''d.csv''" "[]" "''p''" 3]
  show ?thesis by simp
qed

text \<open>
  Claim C5. \<open>chunkCSV\<close> is a total function, so it returns on every input. When the parts
  can be opened and data line \<open>i\<close> alone is longer than the threshold, some part holds
  exactly the header line and that data line, and the data lines of parts \<open>1, \<dots>, n\<close>,
  read back in order, are exactly the data lines of the source: none is dropped.
\<close>

theorem chunkCSV_long_line_own_part:
  assumes src: "files fs csvPath = Some src"
    and lines: "read_lines src = headerLine # dataLines"
    and parts: "\<forall>k. writable fs (part_name chunkPrefix k ''.csv'')"
    and distinct_names: "\<forall>k. part_name chunkPrefix k ''.csv'' \<noteq> csvPath"
    and bound: "length dataLines + 1 < 2 ^ 31"
    and i: "i < length dataLines"
    and long: "chunkSize < length (dataLines ! i)"
  shows "\<exists>n fs1.
           chunkCSV fs csvPath chunkPrefix chunkSize = (CSVChunkingComplete n, fs1) \<and>
           (\<exists>k. 1 \<le> k \<and> k \<le> n \<and>
                files fs1 (part_name chunkPrefix k ''.csv'') =
                  Some (headerLine @ [LF] @ dataLines ! i @ [LF])) \<and>
           concat (map (\<lambda>k. tl (read_lines (the (files fs1 (part_name chunkPrefix k ''.csv'')))))
                     [1..<n + 1]) = dataLines"
proof -
  let ?gs = "csv_parts chunkSize dataLines"
  let ?G = "csv_groups chunkSize 0 dataLines"
  let ?fs1 = "snd (chunkCSV fs csvPath chunkPrefix chunkSize)"
  from lines obtain rest where rest: "getline src = Some (headerLine, rest)"
    "read_lines rest = dataLines" by (auto dest: read_lines_Cons)
  have h: "LF \<notin> set headerLine" using rest(1) by (rule getline_no_LF)
  have d: "\<forall>l\<in>set dataLines. LF \<notin> set l"
    using read_lines_no_LF [of _ rest] rest(2) by auto
  have chunk: "chunkCSV fs csvPath chunkPrefix chunkSize = (CSVChunkingComplete (length ?gs), ?fs1)"
    using chunkCSV_parts [OF src rest(1) parts, of chunkSize] rest(2) by simp
  have look: "files ?fs1 (part_name chunkPrefix (1 + m) ''.csv'') = Some (part_text headerLine (?gs ! m))"
    if "m < length ?gs" for m
    using chunkCSV_part_lookup [OF src rest(1) parts, of m chunkSize] that rest(2) by simp
  from long_line_alone [OF i long, of 0] obtain j where
    j: "0 < j" "j < length ?G" "?G ! j = [dataLines ! i]" by blast
  then have j': "j - 1 < length ?gs" "?gs ! (j - 1) = [dataLines ! i]"
    by (simp_all add: csv_parts_def nth_tl)
  from look [OF j'(1)] j'(2) j(1)
  have "files ?fs1 (part_name chunkPrefix j ''.csv'') = Some (headerLine @ [LF] @ dataLines ! i @ [LF])"
    by (simp add: part_text_def)
  moreover have "1 \<le> j" "j \<le> length ?gs" using j(1) j'(1) by simp_all
  ultimately have own: "\<exists>k. 1 \<le> k \<and> k \<le> length ?gs \<and>
      files ?fs1 (part_name chunkPrefix k ''.csv'') = Some (headerLine @ [LF] @ dataLines ! i @ [LF])"
    by blast
  have "map (\<lambda>k. tl (read_lines (the (files ?fs1 (part_name chunkPrefix k ''.csv'')))))
          [1..<length ?gs + 1] = ?gs"
  proof (rule nth_equalityI)
    show "length (map (\<lambda>k. tl (read_lines (the (files ?fs1 (part_name chunkPrefix k ''.csv'')))))
            [1..<length ?gs + 1]) = length ?gs" by (simp del: upt_Suc)
  next
    fix m
    assume "m < length (map (\<lambda>k. tl (read_lines (the (files ?fs1 (part_name chunkPrefix k ''.csv'')))))
            [1..<length ?gs + 1])"
    then have m: "m < length ?gs" by (simp del: upt_Suc)
    then have "[1..<length ?gs + 1] ! m = 1 + m" by (simp del: upt_Suc)
    moreover have "read_lines (part_text headerLine (?gs ! m)) = headerLine # ?gs ! m"
      using h csv_parts_no_LF [OF d m] by (rule read_lines_part_text)
    ultimately show "map (\<lambda>k. tl (read_lines (the (files ?fs1 (part_name chunkPrefix k ''.csv'')))))
            [1..<length ?gs + 1] ! m = ?gs ! m"
      using m look [OF m] by (simp del: upt_Suc)
  qed
  then have "concat (map (\<lambda>k. tl (read_lines (the (files ?fs1 (part_name chunkPrefix k ''.csv'')))))
          [1..<length ?gs + 1]) = dataLines"
    by (simp add: concat_csv_parts)
  with chunk own show ?thesis by blast
qed

theorem chunkCSV_long_line_own_part_witness:
  "\<exists>n fs1.
     chunkCSV \<lparr>files = [''d.csv'' \<mapsto> ''h\<newline>abcdef\<newline>x\<newline>''], writable = (\<lambda>_. True)\<rparr> ''d.csv'' ''p'' 3 =
       (CSVChunkingComplete n, fs1) \<and>
     (\<exists>k. 1 \<le> k \<and> k \<le> n \<and> files fs1 (part_name ''p'' k ''.csv'') = Some ''h\<newline>abcdef\<newline>'') \<and>
     concat (map (\<lambda>k. tl (read_lines (the (files fs1 (part_name ''p'' k ''.csv''))))) [1..<n + 1]) =
       [''abcdef'', ''x'']"
proof -
  let ?src = "''h\<newline>abcdef\<newline>x\<newline>''"
  let ?fs = "\<lparr>files = [''d.csv'' \<mapsto> ?src], writable = (\<lambda>_. True)\<rparr>"
  have lines: "read_lines ?src = [''h'', ''abcdef'', ''x'']"
    by (simp add: read_lines.simps getline_def)
  have names: "\<forall>k. part_name ''p'' k ''.csv'' \<noteq> ''d.csv''"
    by (simp add: part_name_def)
  from chunkCSV_long_line_own_part [where fs = ?fs and csvPath = "''d.csv''" and src = ?src
      and headerLine = "''h''" and dataLines = "[''abcdef'', ''x'']"
      and chunkPrefix = "''p''" and chunkSize = 3 and i = 0, OF _ lines _ names]
  show ?thesis by simp
qed

text \<open>
  Claim C6, evaluated where it fails. For a source with CRLF line ends, \<open>getline\<close> removes
  the newline only, so each line keeps its carriage return and the part holds CRLF line
  ends again.
\<close>

theorem chunkCSV_keeps_carriage_return:
  "files (snd (chunkCSV
       \<lparr>files = [''d.csv'' \<mapsto> ''h'' @ [CR, LF] @ ''a'' @ [CR, LF]], writable = (\<lambda>_. True)\<rparr>
       ''d.csv'' ''p'' 10)) ''p1.csv'' = Some (''h'' @ [CR, LF] @ ''a'' @ [CR, LF]) \<and>
   CR \<in> set (''h'' @ [CR, LF] @ ''a'' @ [CR, LF])"
  by (simp add: chunkCSV_def getline_def read_lines.simps part_name_def to_string.simps
      digit_char_def write_file_def append_file_def)

text \<open>
  Claim C6, amended. Every part that \<open>chunkCSV\<close> writes is a sequence of lines of the
  source, each unchanged, free of newline characters and followed by exactly one newline
  character. Carriage returns are not removed.
\<close>

theorem chunkCSV_lines_verbatim:
  assumes src: "files fs csvPath = Some src"
    and lines: "read_lines src = headerLine # dataLines"
    and parts: "\<forall>k. writable fs (part_name chunkPrefix k ''.csv'')"
    and distinct_names: "\<forall>k. part_name chunkPrefix k ''.csv'' \<noteq> csvPath"
    and bound: "length dataLines + 1 < 2 ^ 31"
  shows "\<exists>n fs1.
           chunkCSV fs csvPath chunkPrefix chunkSize = (CSVChunkingComplete n, fs1) \<and>
           (\<forall>k. 1 \<le> k \<and> k \<le> n \<longrightarrow>
              (\<exists>ls. files fs1 (part_name chunkPrefix k ''.csv'') = Some (write_lines ls) \<and>
                    set ls \<subseteq> set (read_lines src) \<and> (\<forall>l\<in>set ls. LF \<notin> set l)))"
proof -
  let ?gs = "csv_parts chunkSize dataLines"
  let ?fs1 = "snd (chunkCSV fs csvPath chunkPrefix chunkSize)"
  from lines obtain rest where rest: "getline src = Some (headerLine, rest)"
    "read_lines rest = dataLines" by (auto dest: read_lines_Cons)
  have all: "\<forall>l\<in>set (read_lines src). LF \<notin> set l"
    using read_lines_no_LF [of _ src] by auto
  have chunk: "chunkCSV fs csvPath chunkPrefix chunkSize = (CSVChunkingComplete (length ?gs), ?fs1)"
    using chunkCSV_parts [OF src rest(1) parts, of chunkSize] rest(2) by simp
  have "\<exists>ls. files ?fs1 (part_name chunkPrefix k ''.csv'') = Some (write_lines ls) \<and>
             set ls \<subseteq> set (read_lines src) \<and> (\<forall>l\<in>set ls. LF \<notin> set l)"
    if k: "1 \<le> k \<and> k \<le> length ?gs" for k
  proof -
    let ?ls = "headerLine # ?gs ! (k - 1)"
    from k have m: "k - 1 < length ?gs" by arith
    from chunkCSV_part_lookup [OF src rest(1) parts, of "k - 1" chunkSize] m rest(2) k
    have "files ?fs1 (part_name chunkPrefix k ''.csv'') = Some (write_lines ?ls)"
      by (simp add: part_text_def)
    moreover have "?gs ! (k - 1) \<in> set ?gs" using m by (rule nth_mem)
    then have "set (?gs ! (k - 1)) \<subseteq> set (concat ?gs)" by auto
    then have sub: "set ?ls \<subseteq> set (read_lines src)"
      using lines by (auto simp: concat_csv_parts)
    moreover from sub all have "\<forall>l\<in>set ?ls. LF \<notin> set l" by blast
    ultimately show ?thesis by blast
  qed
  with chunk show ?thesis by blast
qed

theorem chunkCSV_lines_verbatim_witness:
  "\<exists>fs1 ls.
     chunkCSV \<lparr>files = [''d.csv'' \<mapsto> ''h'' @ [CR, LF] @ ''a'' @ [CR, LF]], writable = (\<lambda>_. True)\<rparr>
       ''d.csv'' ''p'' 10 = (CSVChunkingComplete 1, fs1) \<and>
     files fs1 (part_name ''p'' 1 ''.csv'') = Some (write_lines ls) \<and>
     set ls \<subseteq> {''h'' @ [CR], ''a'' @ [CR]}"
proof -
  let ?src = "''h'' @ [CR, LF] @ ''a'' @ [CR, LF]"
  let ?fs = "\<lparr>files = [''d.csv'' \<mapsto> ?src], writable = (\<lambda>_. True)\<rparr>"
  have lines: "read_lines ?src = [''h'' @ [CR], ''a'' @ [CR]]"
    by (simp add: read_lines.simps getline_def)
  have names: "\<forall>k. part_name ''p'' k ''.csv'' \<noteq> ''d.csv''"
    by (simp add: part_name_def)
  have one: "fst (chunkCSV ?fs ''d.csv'' ''p'' 10) = CSVChunkingComplete 1"
    by (simp add: chunkCSV_def getline_def read_lines.simps)
  from chunkCSV_lines_verbatim [where fs = ?fs and csvPath = "''d.csv''" and src = ?src
      and headerLine = "''h'' @ [CR]" and dataLines = "[''a'' @ [CR]]"
      and chunkPrefix = "''p''" and chunkSize = 10, OF _ lines _ names]
  obtain n fs1 where chunk: "chunkCSV ?fs ''d.csv'' ''p'' 10 = (CSVChunkingComplete n, fs1)"
    and parts: "\<forall>k. 1 \<le> k \<and> k \<le> n \<longrightarrow>
      (\<exists>ls. files fs1 (part_name ''p'' k ''.csv'') = Some (write_lines ls) \<and>
            set ls \<subseteq> set (read_lines ?src) \<and> (\<forall>l\<in>set ls. LF \<notin> set l))"
    by auto
  from chunk one have n: "n = 1" by simp
  with parts obtain ls where "files fs1 (part_name ''p'' 1 ''.csv'') = Some (write_lines ls)"
    and "set ls \<subseteq> set (read_lines ?src)" by auto
  with chunk n lines show ?thesis by auto
qed

text \<open>
  Claim C8, evaluated where it fails. The data lines are an empty line and \<open>a\<close>, the
  threshold is 10. Part 1 receives the empty line, which leaves \<open>currentSize\<close> at 0, so
  the test \<open>currentSize == 0\<close> opens part 2 for the line \<open>a\<close>, although part 1 already
  holds a data line and \<open>0 + 1\<close> does not exceed the threshold.
\<close>

theorem chunkCSV_empty_line_opens_new_part:
  "chunkCSV \<lparr>files = [''d.csv'' \<mapsto> ''h\<newline>\<newline>a\<newline>''], writable = (\<lambda>_. True)\<rparr> ''d.csv'' ''p'' 10 =
     (CSVChunkingComplete 2,
      \<lparr>files = [''d.csv'' \<mapsto> ''h\<newline>\<newline>a\<newline>'', ''p1.csv'' \<mapsto> ''h\<newline>\<newline>'', ''p2.csv'' \<mapsto> ''h\<newline>a\<newline>''],
         writable = (\<lambda>_. True)\<rparr>)"
  by (simp add: chunkCSV_def getline_def read_lines.simps part_name_def to_string.simps
      digit_char_def write_file_def append_file_def)

end
